theory Spec2Isabelle
  imports Main
begin

section \<open>Data model of the cache-empty notification layer\<close>

text \<open>
  The Go package \<open>proxy\<close> dispatches a "cache empty" notification for a channel to an
  application backend and collapses concurrent notifications for one channel into a
  single backend call. The wire types come from \<open>proxyproto\<close>: a request carries the
  channel name, a response carries a pointer to a result with a \<open>Populated\<close> flag.
  Go pointers and interface values that may be \<open>nil\<close> are options here.
\<close>

record NotifyCacheEmptyRequest =
  Channel :: string

record NotifyCacheEmptyResult =
  Populated :: bool

record NotifyCacheEmptyResponse =
  Result :: "NotifyCacheEmptyResult option"

text \<open>
  Go errors: the two errors a \<open>context.Context\<close> reports, the package's
  \<open>ErrLockTimeout\<close> value, and whatever a transport binding returns.
\<close>

datatype error = Canceled | DeadlineExceeded | ErrLockTimeout | TransportError string

text \<open>
  A \<open>context.Context\<close> as the handler uses it: \<open>ctx.Err()\<close> is \<open>nil\<close> until the
  context is cancelled or expires, and \<open>ctx.Done()\<close> is closed exactly when
  \<open>ctx.Err()\<close> is not \<open>nil\<close>.
\<close>

datatype go_context = Context (Err: "error option")

text \<open>
  What a call of a Go function with results \<open>(*Response, error)\<close> can do: return its
  pair, or panic.
\<close>

datatype outcome =
    Returned "NotifyCacheEmptyResponse option" "error option"
  | Panicked

text \<open>
  The interface \<open>CacheEmptyProxy\<close>. The backend behind a proxy is a state \<open>'w\<close> that a
  call reads and changes, so that two calls need not answer alike.
\<close>

record 'w CacheEmptyProxy =
  ProxyCacheEmpty :: "go_context \<Rightarrow> NotifyCacheEmptyRequest \<Rightarrow> 'w \<Rightarrow> outcome \<times> 'w"
  Protocol :: string
  UseBase64 :: bool
  IncludeMeta :: bool

text \<open>
  What the code does beyond returning: the lines it logs and the transport calls it
  makes, in order.
\<close>

datatype event =
    LogNilProxy string
  | CallProxy string go_context NotifyCacheEmptyRequest
  | LogProxyError error string string
  | LogLockTimeout string int

fun isCallProxy :: "event \<Rightarrow> bool" where
  "isCallProxy (CallProxy name ctx req) = True"
| "isCallProxy ev = False"

definition transportCalls :: "event list \<Rightarrow> event list" where
  "transportCalls evs = filter isCallProxy evs"

section \<open>Dispatch: \<open>handleCacheEmpty\<close>\<close>

text \<open>
  \<open>proxies\<close> is a Go map from proxy name to proxy; a value of the map may be the
  \<open>nil\<close> interface. \<open>for name, cacheEmptyProxy := range proxies\<close> visits every
  entry once, in an order the Go runtime chooses at each loop. \<open>rangeOrder proxies es\<close>
  says that \<open>es\<close> is one such order of the entries of \<open>proxies\<close>.
\<close>

type_synonym 'w registry = "string \<rightharpoonup> 'w CacheEmptyProxy option"

definition rangeOrder :: "'w registry \<Rightarrow> (string \<times> 'w CacheEmptyProxy option) list \<Rightarrow> bool" where
  "rangeOrder proxies es = (distinct (map fst es) \<and> map_of es = proxies)"

text \<open>
  \<open>handleCacheEmpty ctx req es w evs\<close> runs the loop over the entries in the order
  \<open>es\<close>, from backend state \<open>w\<close> and with \<open>evs\<close> logged so far.
\<close>

fun handleCacheEmpty ::
  "go_context \<Rightarrow> NotifyCacheEmptyRequest \<Rightarrow> (string \<times> 'w CacheEmptyProxy option) list \<Rightarrow>
   'w \<Rightarrow> event list \<Rightarrow> outcome \<times> 'w \<times> event list" where
  "handleCacheEmpty ctx req [] w evs =
     (Returned (Some \<lparr>Result = Some \<lparr>Populated = False\<rparr>\<rparr>) None, w, evs)"
| "handleCacheEmpty ctx req ((name, None) # rest) w evs =
     handleCacheEmpty ctx req rest w (evs @ [LogNilProxy name])"
| "handleCacheEmpty ctx req ((name, Some cacheEmptyProxy) # rest) w evs =
     (case ProxyCacheEmpty cacheEmptyProxy ctx req w of
        (Panicked, w') \<Rightarrow> (Panicked, w', evs @ [CallProxy name ctx req])
      | (Returned resp (Some err), w') \<Rightarrow>
          (Returned None (Some err), w',
           evs @ [CallProxy name ctx req, LogProxyError err name (Channel req)])
      | (Returned resp None, w') \<Rightarrow>
          (Returned resp None, w', evs @ [CallProxy name ctx req]))"

section \<open>The handler and its configuration\<close>

text \<open>\<open>time.Duration\<close> counts nanoseconds; \<open>time.Second\<close> is \<open>10^9\<close> of them.\<close>

definition Second :: int where
  "Second = 1000000000"

record 'w CacheEmptyHandlerConfig =
  Proxies :: "'w registry"
  LockTimeout :: int

text \<open>
  \<open>channelLocks\<close> is the \<open>sync.Map\<close> from channel to \<open>*channelLock\<close>; a pointer is the
  address of the lock in the store of the program state below.
\<close>

record 'w CacheEmptyHandler =
  proxies :: "'w registry"
  channelLocks :: "string \<rightharpoonup> nat"
  lockTimeout :: int

definition NewCacheEmptyHandler :: "'w CacheEmptyHandlerConfig \<Rightarrow> 'w CacheEmptyHandler" where
  "NewCacheEmptyHandler config =
     (let lockTimeout = (if LockTimeout config = 0 then 5 * Second else LockTimeout config)
      in \<lparr>proxies = Proxies config, channelLocks = Map.empty, lockTimeout = lockTimeout\<rparr>)"

section \<open>Program state: the lock store and the goroutines calling \<open>handle\<close>\<close>

text \<open>
  The struct \<open>channelLock\<close>. The Go channel \<open>done\<close> carries no value and is only ever
  closed, so it is the flag "has been closed".
\<close>

record channelLock =
  result :: "NotifyCacheEmptyResponse option"
  err :: "error option"
  doneClosed :: bool

text \<open>
  Where a goroutine stands inside \<open>handle\<close>. The leader carries the address of the
  lock it installed; once its \<open>return\<close> statement has evaluated its operands (or the
  call at line 74 has panicked) the deferred function runs with that outcome pending.
  A follower blocked in \<open>select\<close> carries the lock it was given, the duration its timer
  was created with, and whether the timer has fired.
\<close>

datatype location =
    Entry
  | LeaderCall nat
  | LeaderReturn nat
  | LeaderDelete nat outcome
  | LeaderClose nat outcome
  | FollowerSelect nat int bool
  | Finished outcome

record goroutine =
  ctx :: go_context
  channel :: string
  pc :: location

record 'w program =
  handler :: "'w CacheEmptyHandler"
  store :: "nat \<Rightarrow> channelLock"
  nextLock :: nat
  backend :: 'w
  events :: "event list"
  goroutines :: "goroutine list"

text \<open>
  \<open>getOrCreateLock\<close>: allocate \<open>newLock\<close> with an open \<open>done\<close>, then
  \<open>LoadOrStore(channel, newLock)\<close>, which \<open>sync.Map\<close> performs atomically; the second
  component of the result is \<open>!loaded\<close>.
\<close>

definition getOrCreateLock :: "string \<Rightarrow> 'w program \<Rightarrow> (nat \<times> bool) \<times> 'w program" where
  "getOrCreateLock chan s =
     (let newLock = nextLock s;
          s1 = s\<lparr>store := (store s)(newLock := \<lparr>result = None, err = None, doneClosed = False\<rparr>),
                 nextLock := Suc newLock\<rparr>
      in case channelLocks (handler s1) chan of
           Some actual \<Rightarrow> ((actual, False), s1)
         | None \<Rightarrow>
             ((newLock, True),
              s1\<lparr>handler := (handler s1)\<lparr>channelLocks := (channelLocks (handler s1))(chan \<mapsto> newLock)\<rparr>\<rparr>))"

definition at :: "'w program \<Rightarrow> nat \<Rightarrow> location \<Rightarrow> bool" where
  "at s i l = (i < length (goroutines s) \<and> pc (goroutines s ! i) = l)"

definition goto :: "nat \<Rightarrow> location \<Rightarrow> 'w program \<Rightarrow> 'w program" where
  "goto i l s = s\<lparr>goroutines := (goroutines s)[i := (goroutines s ! i)\<lparr>pc := l\<rparr>]\<rparr>"

text \<open>
  One atomic action of the program. The first eight are statements of \<open>handle\<close>
  executed by goroutine \<open>i\<close>; the last two are what the environment does to it.
  An action that ranges over \<open>proxies\<close> carries the order the runtime picked.
\<close>

datatype 'w action =
    Enter nat
  | Dispatch nat "(string \<times> 'w CacheEmptyProxy option) list"
  | Return nat
  | Delete nat
  | Close nat
  | RecvDone nat
  | RecvTimer nat "(string \<times> 'w CacheEmptyProxy option) list"
  | RecvCtx nat
  | TimerFires nat
  | CtxEnds nat error

text \<open>
  \<open>step a s\<close> is the state after action \<open>a\<close>, or \<open>None\<close> when \<open>a\<close> cannot happen in \<open>s\<close>.

  \<^item> \<open>Enter\<close>: line 61, and for a follower lines 79-80 (the timer is created with
    \<open>h.lockTimeout\<close>).
  \<^item> \<open>Dispatch\<close>: line 74, the call of \<open>handleCacheEmpty\<close> with a fresh request and the
    assignment of its results to \<open>lock.result, lock.err\<close>; a panic of the call skips the
    assignment and starts the deferred function.
  \<^item> \<open>Return\<close>: line 75, the operands of \<open>return\<close> are read from the lock.
  \<^item> \<open>Delete\<close>, \<open>Close\<close>: lines 67 and 68 of the deferred function; closing a closed
    channel panics.
  \<^item> \<open>RecvDone\<close>, \<open>RecvTimer\<close>, \<open>RecvCtx\<close>: the three cases of \<open>select\<close>, each possible
    only when its channel is ready.
  \<^item> \<open>TimerFires\<close>: the runtime sends on \<open>timer.C\<close>. \<open>CtxEnds\<close>: the caller's context
    is cancelled or expires.
\<close>

fun step :: "'w action \<Rightarrow> 'w program \<Rightarrow> 'w program option" where
  "step (Enter i) s =
     (if at s i Entry then
        (case getOrCreateLock (channel (goroutines s ! i)) s of
           ((lock, isFirstCall), s') \<Rightarrow>
             Some (goto i (if isFirstCall then LeaderCall lock
                           else FollowerSelect lock (lockTimeout (handler s')) False) s'))
      else None)"
| "step (Dispatch i es) s =
     (case pc (goroutines s ! i) of
        LeaderCall lock \<Rightarrow>
          (if i < length (goroutines s) \<and> rangeOrder (proxies (handler s)) es then
             (case handleCacheEmpty (ctx (goroutines s ! i))
                     \<lparr>Channel = channel (goroutines s ! i)\<rparr> es (backend s) (events s) of
                (Returned resp e, w', evs') \<Rightarrow>
                  Some (goto i (LeaderReturn lock)
                     (s\<lparr>store := (store s)(lock := (store s lock)\<lparr>result := resp, err := e\<rparr>),
                        backend := w', events := evs'\<rparr>))
              | (Panicked, w', evs') \<Rightarrow>
                  Some (goto i (LeaderDelete lock Panicked) (s\<lparr>backend := w', events := evs'\<rparr>)))
           else None)
      | _ \<Rightarrow> None)"
| "step (Return i) s =
     (case pc (goroutines s ! i) of
        LeaderReturn lock \<Rightarrow>
          (if i < length (goroutines s) then
             Some (goto i (LeaderDelete lock
                     (Returned (result (store s lock)) (err (store s lock)))) s)
           else None)
      | _ \<Rightarrow> None)"
| "step (Delete i) s =
     (case pc (goroutines s ! i) of
        LeaderDelete lock out \<Rightarrow>
          (if i < length (goroutines s) then
             Some (goto i (LeaderClose lock out)
                     (s\<lparr>handler := (handler s)\<lparr>channelLocks :=
                          (channelLocks (handler s))(channel (goroutines s ! i) := None)\<rparr>\<rparr>))
           else None)
      | _ \<Rightarrow> None)"
| "step (Close i) s =
     (case pc (goroutines s ! i) of
        LeaderClose lock out \<Rightarrow>
          (if i < length (goroutines s) then
             (if doneClosed (store s lock) then Some (goto i (Finished Panicked) s)
              else Some (goto i (Finished out)
                     (s\<lparr>store := (store s)(lock := (store s lock)\<lparr>doneClosed := True\<rparr>)\<rparr>)))
           else None)
      | _ \<Rightarrow> None)"
| "step (RecvDone i) s =
     (case pc (goroutines s ! i) of
        FollowerSelect lock d fired \<Rightarrow>
          (if i < length (goroutines s) \<and> doneClosed (store s lock) then
             Some (goto i (Finished (Returned (result (store s lock)) (err (store s lock)))) s)
           else None)
      | _ \<Rightarrow> None)"
| "step (RecvTimer i es) s =
     (case pc (goroutines s ! i) of
        FollowerSelect lock d fired \<Rightarrow>
          (if i < length (goroutines s) \<and> fired \<and> rangeOrder (proxies (handler s)) es then
             (case handleCacheEmpty (ctx (goroutines s ! i))
                     \<lparr>Channel = channel (goroutines s ! i)\<rparr> es (backend s)
                     (events s @ [LogLockTimeout (channel (goroutines s ! i))
                                    (lockTimeout (handler s))]) of
                (out, w', evs') \<Rightarrow>
                  Some (goto i (Finished out) (s\<lparr>backend := w', events := evs'\<rparr>)))
           else None)
      | _ \<Rightarrow> None)"
| "step (RecvCtx i) s =
     (case pc (goroutines s ! i) of
        FollowerSelect lock d fired \<Rightarrow>
          (case Err (ctx (goroutines s ! i)) of
             Some e \<Rightarrow>
               (if i < length (goroutines s) then
                  Some (goto i (Finished (Returned None (Some e))) s)
                else None)
           | None \<Rightarrow> None)
      | _ \<Rightarrow> None)"
| "step (TimerFires i) s =
     (case pc (goroutines s ! i) of
        FollowerSelect lock d fired \<Rightarrow>
          (if i < length (goroutines s) \<and> \<not> fired then Some (goto i (FollowerSelect lock d True) s)
           else None)
      | _ \<Rightarrow> None)"
| "step (CtxEnds i e) s =
     (if i < length (goroutines s) \<and> Err (ctx (goroutines s ! i)) = None then
        Some (s\<lparr>goroutines := (goroutines s)[i := (goroutines s ! i)\<lparr>ctx := Context (Some e)\<rparr>]\<rparr>)
      else None)"

text \<open>A schedule is a list of actions; it runs while each action can happen.\<close>

fun run :: "'w action list \<Rightarrow> 'w program \<Rightarrow> 'w program option" where
  "run [] s = Some s"
| "run (a # as) s = (case step a s of None \<Rightarrow> None | Some s' \<Rightarrow> run as s')"

text \<open>
  The program as \<open>NewCacheEmptyHandler\<close> leaves it, with one goroutine about to call
  the returned \<open>handle\<close> for each pair of a context and a channel.
\<close>

definition start ::
  "'w CacheEmptyHandlerConfig \<Rightarrow> 'w \<Rightarrow> (go_context \<times> string) list \<Rightarrow> 'w program" where
  "start config w calls =
     \<lparr>handler = NewCacheEmptyHandler config,
      store = (\<lambda>a. \<lparr>result = None, err = None, doneClosed = False\<rparr>),
      nextLock = 0, backend = w, events = [],
      goroutines = map (\<lambda>(c, chan). \<lparr>ctx = c, channel = chan, pc = Entry\<rparr>) calls\<rparr>"

section \<open>Predicates on locations\<close>

text \<open>The duration of the timer of a follower is \<open>L\<close>.\<close>

fun timerOk :: "int \<Rightarrow> location \<Rightarrow> bool" where
  "timerOk L (FollowerSelect lock d fired) = (d = L)"
| "timerOk L l = True"

definition timerInv :: "'w program \<Rightarrow> bool" where
  "timerInv s =
     (\<forall>i < length (goroutines s). timerOk (lockTimeout (handler s)) (pc (goroutines s ! i)))"

section \<open>Concrete backends and states\<close>

text \<open>
  A backend that counts the calls it has received: \<open>countingBackend\<close> reports the cache
  populated on the first call only, \<open>failingBackend\<close> answers every call with an error.
\<close>

definition countingBackend :: "nat CacheEmptyProxy" where
  "countingBackend =
     \<lparr>ProxyCacheEmpty =
        (\<lambda>c req n. (Returned (Some \<lparr>Result = Some \<lparr>Populated = (n = 0)\<rparr>\<rparr>) None, Suc n)),
      Protocol = ''http'', UseBase64 = False, IncludeMeta = False\<rparr>"

definition failingBackend :: "nat CacheEmptyProxy" where
  "failingBackend =
     \<lparr>ProxyCacheEmpty = (\<lambda>c req n. (Returned None (Some (TransportError ''500'')), Suc n)),
      Protocol = ''grpc'', UseBase64 = False, IncludeMeta = False\<rparr>"

definition oneBackend :: "nat CacheEmptyHandlerConfig" where
  "oneBackend = \<lparr>Proxies = [''test'' \<mapsto> Some countingBackend], LockTimeout = 0\<rparr>"

definition testOrder :: "(string \<times> nat CacheEmptyProxy option) list" where
  "testOrder = [(''test'', Some countingBackend)]"

definition twoBackends :: "nat registry" where
  "twoBackends = [''a'' \<mapsto> Some countingBackend, ''b'' \<mapsto> Some failingBackend]"

definition orderAB :: "(string \<times> nat CacheEmptyProxy option) list" where
  "orderAB = [(''a'', Some countingBackend), (''b'', Some failingBackend)]"

definition orderBA :: "(string \<times> nat CacheEmptyProxy option) list" where
  "orderBA = [(''b'', Some failingBackend), (''a'', Some countingBackend)]"

definition nilAndBackend :: "nat registry" where
  "nilAndBackend = [''test'' \<mapsto> Some countingBackend, ''old'' \<mapsto> None]"

definition news :: NotifyCacheEmptyRequest where
  "news = \<lparr>Channel = ''news''\<rparr>"

text \<open>
  Two goroutines called \<open>handle\<close> for channel \<open>news\<close>: goroutine 0 is the leader and has
  not yet called the backend, goroutine 1 is a follower blocked in \<open>select\<close>.
\<close>

definition waiting :: "go_context \<Rightarrow> bool \<Rightarrow> nat program" where
  "waiting c fired =
     \<lparr>handler = \<lparr>proxies = [''test'' \<mapsto> Some countingBackend],
                 channelLocks = [''news'' \<mapsto> 0], lockTimeout = 5 * Second\<rparr>,
      store = (\<lambda>a. \<lparr>result = None, err = None, doneClosed = False\<rparr>),
      nextLock = 2, backend = 0, events = [],
      goroutines = [\<lparr>ctx = Context None, channel = ''news'', pc = LeaderCall 0\<rparr>,
                    \<lparr>ctx = c, channel = ''news'', pc = FollowerSelect 0 (5 * Second) fired\<rparr>]\<rparr>"

text \<open>Two calls of \<open>handle\<close> for the same channel, each with a live context.\<close>

definition twoCalls :: "(go_context \<times> string) list" where
  "twoCalls = [(Context None, ''news''), (Context None, ''news'')]"

section \<open>Invariants of the lock map\<close>

text \<open>
  \<open>pendingLock\<close> is the lock of a leader whose entry is still in the map (it has not yet
  run line 67); \<open>leaderLock\<close> is the lock of a leader that has not yet closed \<open>done\<close>.
  \<open>installed\<close>: the map holds the lock of every such leader under its channel.
  \<open>owned\<close>: every entry of the map is the lock of such a leader for that channel.
  \<open>exclusive\<close>: two leaders never hold the same lock. \<open>allocated\<close>: a leader's lock has
  been allocated and its \<open>done\<close> is open.
\<close>

fun pendingLock :: "location \<Rightarrow> nat option" where
  "pendingLock (LeaderCall a) = Some a"
| "pendingLock (LeaderReturn a) = Some a"
| "pendingLock (LeaderDelete a out) = Some a"
| "pendingLock l = None"

fun leaderLock :: "location \<Rightarrow> nat option" where
  "leaderLock (LeaderClose a out) = Some a"
| "leaderLock l = pendingLock l"

definition installed :: "'w program \<Rightarrow> bool" where
  "installed s =
     (\<forall>i < length (goroutines s). \<forall>a. pendingLock (pc (goroutines s ! i)) = Some a \<longrightarrow>
        channelLocks (handler s) (channel (goroutines s ! i)) = Some a)"

definition owned :: "'w program \<Rightarrow> bool" where
  "owned s =
     (\<forall>c a. channelLocks (handler s) c = Some a \<longrightarrow>
        (\<exists>i < length (goroutines s). channel (goroutines s ! i) = c \<and>
           pendingLock (pc (goroutines s ! i)) = Some a))"

definition exclusive :: "'w program \<Rightarrow> bool" where
  "exclusive s =
     (\<forall>i < length (goroutines s). \<forall>j < length (goroutines s). \<forall>a.
        leaderLock (pc (goroutines s ! i)) = Some a \<and>
        leaderLock (pc (goroutines s ! j)) = Some a \<longrightarrow> i = j)"

definition allocated :: "'w program \<Rightarrow> bool" where
  "allocated s =
     (\<forall>i < length (goroutines s). \<forall>a. leaderLock (pc (goroutines s ! i)) = Some a \<longrightarrow>
        a < nextLock s \<and> \<not> doneClosed (store s a))"

definition lockInv :: "'w program \<Rightarrow> bool" where
  "lockInv s = (installed s \<and> owned s \<and> exclusive s \<and> allocated s)"

section \<open>The window in which calls are collapsed\<close>


















text \<open>The goroutine an action belongs to.\<close>

fun actor :: "'w action \<Rightarrow> nat" where
  "actor (Enter i) = i"
| "actor (Dispatch i es) = i"
| "actor (Return i) = i"
| "actor (Delete i) = i"
| "actor (Close i) = i"
| "actor (RecvDone i) = i"
| "actor (RecvTimer i es) = i"
| "actor (RecvCtx i) = i"
| "actor (TimerFires i) = i"
| "actor (CtxEnds i e) = i"



section \<open>Properties of dispatch\<close>

lemma handleCacheEmpty_skip_nils:
  "handleCacheEmpty c req (map (\<lambda>n. (n, None)) nils @ es) w evs =
   handleCacheEmpty c req es w (evs @ map LogNilProxy nils)"
  by (induction nils arbitrary: evs) simp_all

lemma handleCacheEmpty_all_nil:
  "handleCacheEmpty c req (map (\<lambda>n. (n, None)) nils) w evs =
   (Returned (Some \<lparr>Result = Some \<lparr>Populated = False\<rparr>\<rparr>) None, w, evs @ map LogNilProxy nils)"
  using handleCacheEmpty_skip_nils [of c req nils "[]" w evs] by simp

lemma transportCalls_append:
  "transportCalls (xs @ ys) = transportCalls xs @ transportCalls ys"
  by (simp add: transportCalls_def)

lemma transportCalls_nils: "transportCalls (map LogNilProxy nils) = []"
  by (induction nils) (simp_all add: transportCalls_def)

lemma transportCalls_nils_fst: "transportCalls (map (LogNilProxy \<circ> fst) es) = []"
  by (induction es) (simp_all add: transportCalls_def)

lemma nil_prefix: "\<forall>e \<in> set pre. snd e = None \<Longrightarrow> pre = map (\<lambda>n. (n, None)) (map fst pre)"
  by (induction pre) auto

lemma all_nil_entries:
  assumes "rangeOrder reg es" "\<forall>name p. reg name \<noteq> Some (Some p)"
  shows "es = map (\<lambda>n. (n, None)) (map fst es)"
proof (rule nil_prefix, rule ballI)
  fix e assume "e \<in> set es"
  then have "map_of es (fst e) = Some (snd e)"
    using assms(1) map_of_is_SomeI [of es "fst e" "snd e"] by (simp add: rangeOrder_def)
  then show "snd e = None"
    using assms by (cases "snd e") (auto simp: rangeOrder_def)
qed

lemma unique_usable_split:
  assumes "rangeOrder reg es" "reg name = Some (Some p)"
    and uniq: "\<forall>m q. reg m = Some (Some q) \<longrightarrow> m = name"
  shows "\<exists>nils rest. es = map (\<lambda>n. (n, None)) nils @ (name, Some p) # rest"
proof -
  from assms(1) have d: "distinct (map fst es)" and m: "map_of es = reg"
    by (simp_all add: rangeOrder_def)
  from m assms(2) have "(name, Some p) \<in> set es"
    by (auto dest: map_of_SomeD)
  then obtain pre rest where es: "es = pre @ (name, Some p) # rest"
    by (auto dest: split_list)
  have "\<forall>e \<in> set pre. snd e = None"
  proof
    fix e assume e: "e \<in> set pre"
    show "snd e = None"
    proof (cases "snd e")
      case None then show ?thesis .
    next
      case (Some q)
      have "(fst e, snd e) \<in> set es" using e es by simp
      then have "(fst e, Some q) \<in> set es" using Some by simp
      with d have "map_of es (fst e) = Some (Some q)" by (rule map_of_is_SomeI)
      with m uniq have "fst e = name" by auto
      with e d es show ?thesis by force
    qed
  qed
  then have "pre = map (\<lambda>n. (n, None)) (map fst pre)" by (rule nil_prefix)
  with es show ?thesis by metis
qed

lemma handleCacheEmpty_usable_outcome:
  "fst (handleCacheEmpty c req (map (\<lambda>n. (n, None)) nils @ (name, Some p) # rest) w evs) =
   fst (handleCacheEmpty c req [(name, Some p)] w [])"
  by (simp add: handleCacheEmpty_skip_nils split: prod.splits outcome.splits option.splits)

lemma handleCacheEmpty_usable_backend:
  "fst (snd (handleCacheEmpty c req (map (\<lambda>n. (n, None)) nils @ (name, Some p) # rest) w evs)) =
   fst (snd (handleCacheEmpty c req [(name, Some p)] w []))"
  by (simp add: handleCacheEmpty_skip_nils split: prod.splits outcome.splits option.splits)

lemma handleCacheEmpty_usable_calls:
  "transportCalls (snd (snd (handleCacheEmpty c req
      (map (\<lambda>n. (n, None)) nils @ (name, Some p) # rest) w evs))) =
   transportCalls evs @ [CallProxy name c req]"
  by (simp add: handleCacheEmpty_skip_nils transportCalls_append transportCalls_nils
      split: prod.splits outcome.splits option.splits)
     (simp add: transportCalls_def)

text \<open>
  C6. Whatever the entries are, the loop logs and skips every \<open>nil\<close> entry it meets, calls
  \<open>ProxyCacheEmpty\<close> of the first entry that is not \<open>nil\<close>, and returns at once: the
  error alone when the call returns one (which is also logged), the response
  otherwise; a panic of the call propagates. The entries after the first usable one
  (\<open>rest\<close>) have no influence: they are neither called nor logged.
\<close>

theorem dispatch_first_usable_entry:
  "handleCacheEmpty c req (map (\<lambda>n. (n, None)) nils @ (name, Some p) # rest) w evs =
     (case ProxyCacheEmpty p c req w of
        (Panicked, w') \<Rightarrow>
          (Panicked, w', evs @ map LogNilProxy nils @ [CallProxy name c req])
      | (Returned resp (Some e), w') \<Rightarrow>
          (Returned None (Some e), w',
           evs @ map LogNilProxy nils @ [CallProxy name c req, LogProxyError e name (Channel req)])
      | (Returned resp None, w') \<Rightarrow>
          (Returned resp None, w', evs @ map LogNilProxy nils @ [CallProxy name c req]))"
  by (simp add: handleCacheEmpty_skip_nils split: prod.splits outcome.splits option.splits)

theorem dispatch_first_usable_entry_witness:
  "handleCacheEmpty (Context None) news
     [(''old'', None), (''b'', Some failingBackend), (''a'', Some countingBackend)] 0 [] =
   (Returned None (Some (TransportError ''500'')), 1,
    [LogNilProxy ''old'', CallProxy ''b'' (Context None) news,
     LogProxyError (TransportError ''500'') ''b'' ''news''])"
  using dispatch_first_usable_entry
    [of "Context None" news "[''old'']" "''b''" failingBackend "[(''a'', Some countingBackend)]"
      0 "[]"]
  by (simp add: failingBackend_def news_def)

text \<open>
  C7. For a registry without a usable entry (empty, or every entry \<open>nil\<close>), in whatever
  order the loop visits it, dispatch returns the default response with a zero result
  and a \<open>nil\<close> error, leaves the backend untouched and makes no transport call.
\<close>

theorem dispatch_no_backend:
  assumes "rangeOrder reg es" "\<forall>name p. reg name \<noteq> Some (Some p)"
  shows "\<exists>evs'. handleCacheEmpty c req es w evs =
            (Returned (Some \<lparr>Result = Some \<lparr>Populated = False\<rparr>\<rparr>) None, w, evs') \<and>
          transportCalls evs' = transportCalls evs"
proof -
  have "es = map (\<lambda>n. (n, None)) (map fst es)"
    using assms by (rule all_nil_entries)
  then have "handleCacheEmpty c req es w evs =
      (Returned (Some \<lparr>Result = Some \<lparr>Populated = False\<rparr>\<rparr>) None, w,
       evs @ map LogNilProxy (map fst es))"
    using handleCacheEmpty_all_nil [of c req "map fst es" w evs] by simp
  then show ?thesis
    by (simp add: transportCalls_append transportCalls_nils_fst)
qed

theorem dispatch_no_backend_witness:
  "fst (handleCacheEmpty (Context None) news [(''old'', None :: nat CacheEmptyProxy option)] 7 []) =
     Returned (Some \<lparr>Result = Some \<lparr>Populated = False\<rparr>\<rparr>) None \<and>
   fst (snd (handleCacheEmpty (Context None) news
     [(''old'', None :: nat CacheEmptyProxy option)] 7 [])) = 7"
proof -
  have h1: "rangeOrder [''old'' \<mapsto> None] [(''old'', None :: nat CacheEmptyProxy option)]"
    by (simp add: rangeOrder_def)
  have h2: "\<forall>name p. [''old'' \<mapsto> (None :: nat CacheEmptyProxy option)] name \<noteq> Some (Some p)"
    by simp
  from dispatch_no_backend [OF h1 h2, of "Context None" news 7 "[]"]
  show ?thesis by auto
qed

text \<open>
  C10. On that path the \<open>Result\<close> field of the returned response is not \<open>nil\<close>: the
  response is there, the error is \<open>nil\<close>, and \<open>Result\<close> points to a result.
\<close>

theorem dispatch_no_backend_result_not_nil:
  assumes "rangeOrder reg es" "\<forall>name p. reg name \<noteq> Some (Some p)"
  shows "\<exists>resp res. fst (handleCacheEmpty c req es w evs) = Returned (Some resp) None \<and>
          Result resp = Some res"
proof -
  have "es = map (\<lambda>n. (n, None)) (map fst es)"
    using assms by (rule all_nil_entries)
  then have "fst (handleCacheEmpty c req es w evs) =
      Returned (Some \<lparr>Result = Some \<lparr>Populated = False\<rparr>\<rparr>) None"
    using handleCacheEmpty_all_nil [of c req "map fst es" w evs] by simp
  then show ?thesis by simp
qed

theorem dispatch_no_backend_result_not_nil_witness:
  "\<exists>resp res. fst (handleCacheEmpty (Context (Some Canceled)) news
       ([] :: (string \<times> nat CacheEmptyProxy option) list) 0 []) = Returned (Some resp) None \<and>
     Result resp = Some res"
proof -
  have h1: "rangeOrder Map.empty ([] :: (string \<times> nat CacheEmptyProxy option) list)"
    by (simp add: rangeOrder_def)
  have h2: "\<forall>name p. (Map.empty :: nat registry) name \<noteq> Some (Some p)"
    by simp
  from dispatch_no_backend_result_not_nil [OF h1 h2, of "Context (Some Canceled)" news 0 "[]"]
  show ?thesis .
qed

text \<open>
  C9, as the code has it. The loop ranges over a Go map, so the order of the entries
  is the runtime's choice at each execution. With at most one usable entry in the
  registry the choice does not show: any two orders give the same outcome, the same
  backend state and the same transport calls.
\<close>

theorem dispatch_single_backend_any_order:
  assumes "rangeOrder reg es" "rangeOrder reg es'"
    and "\<forall>m q n p. reg m = Some (Some q) \<and> reg n = Some (Some p) \<longrightarrow> m = n"
  shows "fst (handleCacheEmpty c req es w evs) = fst (handleCacheEmpty c req es' w evs) \<and>
         fst (snd (handleCacheEmpty c req es w evs)) =
         fst (snd (handleCacheEmpty c req es' w evs)) \<and>
         transportCalls (snd (snd (handleCacheEmpty c req es w evs))) =
         transportCalls (snd (snd (handleCacheEmpty c req es' w evs)))"
proof (cases "\<exists>name p. reg name = Some (Some p)")
  case True
  then obtain name p where np: "reg name = Some (Some p)" by blast
  with assms(3) have uniq: "\<forall>m q. reg m = Some (Some q) \<longrightarrow> m = name" by blast
  obtain nils rest where es: "es = map (\<lambda>n. (n, None)) nils @ (name, Some p) # rest"
    using unique_usable_split [OF assms(1) np uniq] by blast
  obtain nils' rest' where es': "es' = map (\<lambda>n. (n, None)) nils' @ (name, Some p) # rest'"
    using unique_usable_split [OF assms(2) np uniq] by blast
  show ?thesis
    unfolding es es'
    by (simp only: handleCacheEmpty_usable_outcome handleCacheEmpty_usable_backend
        handleCacheEmpty_usable_calls)
next
  case False
  then have none: "\<forall>name p. reg name \<noteq> Some (Some p)" by blast
  have "es = map (\<lambda>n. (n, None)) (map fst es)"
    using assms(1) none by (rule all_nil_entries)
  moreover have "es' = map (\<lambda>n. (n, None)) (map fst es')"
    using assms(2) none by (rule all_nil_entries)
  ultimately have "handleCacheEmpty c req es w evs =
      (Returned (Some \<lparr>Result = Some \<lparr>Populated = False\<rparr>\<rparr>) None, w,
       evs @ map LogNilProxy (map fst es))"
    and "handleCacheEmpty c req es' w evs =
      (Returned (Some \<lparr>Result = Some \<lparr>Populated = False\<rparr>\<rparr>) None, w,
       evs @ map LogNilProxy (map fst es'))"
    using handleCacheEmpty_all_nil [of c req "map fst es" w evs]
      handleCacheEmpty_all_nil [of c req "map fst es'" w evs] by simp_all
  then show ?thesis
    by (simp add: transportCalls_append transportCalls_nils_fst)
qed

theorem dispatch_single_backend_any_order_witness:
  "fst (handleCacheEmpty (Context None) news
          [(''old'', None), (''test'', Some countingBackend)] 0 []) =
   fst (handleCacheEmpty (Context None) news
          [(''test'', Some countingBackend), (''old'', None)] 0 []) \<and>
   transportCalls (snd (snd (handleCacheEmpty (Context None) news
          [(''old'', None), (''test'', Some countingBackend)] 0 []))) =
   transportCalls (snd (snd (handleCacheEmpty (Context None) news
          [(''test'', Some countingBackend), (''old'', None)] 0 [])))"
proof -
  have h1: "rangeOrder nilAndBackend [(''old'', None), (''test'', Some countingBackend)]"
    by (simp add: rangeOrder_def nilAndBackend_def)
  have h2: "rangeOrder nilAndBackend [(''test'', Some countingBackend), (''old'', None)]"
    by (auto simp: rangeOrder_def nilAndBackend_def)
  have h3: "\<forall>m q n p. nilAndBackend m = Some (Some q) \<and> nilAndBackend n = Some (Some p) \<longrightarrow> m = n"
    by (simp add: nilAndBackend_def)
  from dispatch_single_backend_any_order [OF h1 h2 h3, of "Context None" news 0 "[]"]
  show ?thesis by simp
qed

text \<open>
  C9, as stated, fails: the registry \<open>twoBackends\<close> has two usable entries, both orders
  are orders of its entries, and the two executions select different entries and
  return different outcomes.
\<close>

theorem dispatch_order_counterexample:
  "rangeOrder twoBackends orderAB \<and> rangeOrder twoBackends orderBA \<and>
   fst (handleCacheEmpty (Context None) news orderAB 0 []) =
     Returned (Some \<lparr>Result = Some \<lparr>Populated = True\<rparr>\<rparr>) None \<and>
   fst (handleCacheEmpty (Context None) news orderBA 0 []) =
     Returned None (Some (TransportError ''500''))"
  by (auto simp: rangeOrder_def twoBackends_def orderAB_def orderBA_def
      countingBackend_def failingBackend_def)


section \<open>Properties of the handler\<close>

lemma step_config:
  assumes "step a s = Some s'"
  shows "lockTimeout (handler s') = lockTimeout (handler s) \<and>
         proxies (handler s') = proxies (handler s) \<and>
         length (goroutines s') = length (goroutines s)"
  using assms
  by (cases a)
     (auto simp: at_def goto_def getOrCreateLock_def Let_def
       split: if_splits option.splits location.splits prod.splits outcome.splits)

lemma run_config:
  "run sched s = Some s' \<Longrightarrow>
   lockTimeout (handler s') = lockTimeout (handler s) \<and>
   proxies (handler s') = proxies (handler s) \<and>
   length (goroutines s') = length (goroutines s)"
proof (induction sched arbitrary: s)
  case Nil
  then show ?case by simp
next
  case (Cons a sched)
  then show ?case
    by (auto split: option.splits dest!: step_config)
qed

lemma step_timerInv:
  assumes st: "step a s = Some s'" and inv: "timerInv s"
  shows "timerInv s'"
  unfolding timerInv_def
proof (intro allI impI)
  fix j
  assume "j < length (goroutines s')"
  then have j: "j < length (goroutines s)"
    using step_config [OF st] by simp
  have here: "i < length (goroutines s) \<longrightarrow>
      timerOk (lockTimeout (handler s)) (pc (goroutines s ! i))" for i
    using inv by (simp add: timerInv_def)
  show "timerOk (lockTimeout (handler s')) (pc (goroutines s' ! j))"
    using st j here [of j]
    by (cases a)
       (auto simp: at_def goto_def getOrCreateLock_def Let_def nth_list_update
         split: if_splits option.splits location.splits prod.splits outcome.splits)
qed

lemma run_timerInv:
  "run sched s = Some s' \<Longrightarrow> timerInv s \<Longrightarrow> timerInv s'"
proof (induction sched arbitrary: s)
  case Nil
  then show ?case by simp
next
  case (Cons a sched)
  then show ?case
    by (auto split: option.splits dest: step_timerInv)
qed

lemma start_timerInv: "timerInv (start config w calls)"
  by (simp add: timerInv_def start_def split: prod.splits)

text \<open>
  C8. When the configuration leaves \<open>LockTimeout\<close> at its zero value, every follower of
  every execution of the program waits with a timer of \<open>5 * time.Second\<close>, that is
  5000000000 nanoseconds, and that is the timeout the handler holds.
\<close>

theorem default_lock_timeout:
  assumes "LockTimeout config = 0"
    and "run sched (start config w calls) = Some s"
    and "at s i (FollowerSelect lock d fired)"
  shows "d = 5 * Second \<and> lockTimeout (handler s) = 5 * Second \<and> 5 * Second = 5000000000"
proof -
  have "lockTimeout (handler (start config w calls)) = 5 * Second"
    using assms(1) by (simp add: NewCacheEmptyHandler_def start_def)
  then have "lockTimeout (handler s) = 5 * Second"
    using run_config [OF assms(2)] by simp
  moreover have "timerInv s"
    using run_timerInv [OF assms(2) start_timerInv] .
  ultimately show ?thesis
    using assms(3) by (fastforce simp: timerInv_def at_def Second_def)
qed

theorem default_lock_timeout_witness:
  "map_option (\<lambda>s. pc (goroutines s ! 1)) (run [Enter 0, Enter 1] (start oneBackend 0 twoCalls)) =
     Some (FollowerSelect 0 5000000000 False)"
proof -
  have h1: "LockTimeout oneBackend = 0"
    by (simp add: oneBackend_def)
  have h2: "run [Enter 0, Enter 1] (start oneBackend 0 twoCalls) =
      Some (goto 1 (FollowerSelect 0 (5 * Second) False)
        (snd (getOrCreateLock ''news''
           (goto 0 (LeaderCall 0) (snd (getOrCreateLock ''news'' (start oneBackend 0 twoCalls)))))))"
    by (simp add: start_def twoCalls_def oneBackend_def NewCacheEmptyHandler_def at_def goto_def
        getOrCreateLock_def)
  have h3: "at (goto 1 (FollowerSelect 0 (5 * Second) False)
        (snd (getOrCreateLock ''news''
           (goto 0 (LeaderCall 0) (snd (getOrCreateLock ''news'' (start oneBackend 0 twoCalls)))))))
      1 (FollowerSelect 0 (5 * Second) False)"
    by (simp add: start_def twoCalls_def oneBackend_def NewCacheEmptyHandler_def at_def goto_def
        getOrCreateLock_def)
  from default_lock_timeout [OF h1 h2 h3] h2 h3
  show ?thesis by (simp add: at_def)
qed

text \<open>
  C4. A follower in \<open>select\<close> whose timer has fired while the leader's \<open>done\<close> is still
  open and its own context is live can only take the timer case. It logs the warning
  with the channel and \<open>h.lockTimeout\<close>, runs \<open>handleCacheEmpty\<close> itself on a fresh
  request for its channel, and finishes with the outcome of that call, whatever it is;
  the lock store and the handler (so the leader's lock and the map) are untouched.
\<close>

theorem follower_timeout_fallback:
  assumes "at s i (FollowerSelect lock d True)"
    and "\<not> doneClosed (store s lock)"
    and "Err (ctx (goroutines s ! i)) = None"
    and "rangeOrder (proxies (handler s)) es"
  shows "step (RecvDone i) s = None \<and> step (RecvCtx i) s = None \<and>
    (\<exists>s' out. step (RecvTimer i es) s = Some s' \<and>
       handleCacheEmpty (ctx (goroutines s ! i)) \<lparr>Channel = channel (goroutines s ! i)\<rparr> es
         (backend s)
         (events s @ [LogLockTimeout (channel (goroutines s ! i)) (lockTimeout (handler s))]) =
         (out, backend s', events s') \<and>
       goroutines s' = (goroutines s)[i := (goroutines s ! i)\<lparr>pc := Finished out\<rparr>] \<and>
       store s' = store s \<and> handler s' = handler s \<and> nextLock s' = nextLock s)"
  using assms
  by (auto simp: at_def goto_def split: prod.splits)

theorem follower_timeout_fallback_witness:
  "step (RecvDone 1) (waiting (Context None) True) = None \<and>
   step (RecvCtx 1) (waiting (Context None) True) = None \<and>
   map_option (\<lambda>s. (pc (goroutines s ! 1), pc (goroutines s ! 0), backend s, events s,
                     channelLocks (handler s) ''news'', store s 0))
     (step (RecvTimer 1 testOrder) (waiting (Context None) True)) =
   Some (Finished (Returned (Some \<lparr>Result = Some \<lparr>Populated = True\<rparr>\<rparr>) None), LeaderCall 0, 1,
         [LogLockTimeout ''news'' 5000000000, CallProxy ''test'' (Context None) news],
         Some 0, \<lparr>result = None, err = None, doneClosed = False\<rparr>)"
proof -
  have h1: "at (waiting (Context None) True) 1 (FollowerSelect 0 (5 * Second) True)"
    by (simp add: waiting_def at_def)
  have h2: "\<not> doneClosed (store (waiting (Context None) True) 0)"
    by (simp add: waiting_def)
  have h3: "Err (ctx (goroutines (waiting (Context None) True) ! 1)) = None"
    by (simp add: waiting_def)
  have h4: "rangeOrder (proxies (handler (waiting (Context None) True))) testOrder"
    by (simp add: waiting_def rangeOrder_def testOrder_def)
  have ev: "step (RecvTimer 1 testOrder) (waiting (Context None) True) =
      Some ((waiting (Context None) True)
        \<lparr>backend := 1,
          events := [LogLockTimeout ''news'' 5000000000, CallProxy ''test'' (Context None) news],
          goroutines := [\<lparr>ctx = Context None, channel = ''news'', pc = LeaderCall 0\<rparr>,
            \<lparr>ctx = Context None, channel = ''news'',
             pc = Finished (Returned (Some \<lparr>Result = Some \<lparr>Populated = True\<rparr>\<rparr>) None)\<rparr>]\<rparr>)"
    by (simp add: waiting_def testOrder_def countingBackend_def news_def Second_def
        rangeOrder_def goto_def)
  from follower_timeout_fallback [OF h1 h2 h3 h4] ev
  show ?thesis
    by (simp add: waiting_def)
qed

text \<open>
  C5. A follower in \<open>select\<close> whose context has ended while the leader's \<open>done\<close> is
  still open and its timer has not fired can only take the context case. It returns a
  \<open>nil\<close> response with \<open>ctx.Err()\<close>; the backend and the log are as before, so no
  dispatch was attempted.
\<close>

theorem follower_context_cancelled:
  assumes "at s i (FollowerSelect lock d False)"
    and "\<not> doneClosed (store s lock)"
    and "Err (ctx (goroutines s ! i)) = Some e"
  shows "step (RecvDone i) s = None \<and> (\<forall>es. step (RecvTimer i es) s = None) \<and>
    (\<exists>s'. step (RecvCtx i) s = Some s' \<and>
       goroutines s' =
         (goroutines s)[i := (goroutines s ! i)\<lparr>pc := Finished (Returned None (Some e))\<rparr>] \<and>
       backend s' = backend s \<and> events s' = events s \<and>
       store s' = store s \<and> handler s' = handler s \<and> nextLock s' = nextLock s)"
  using assms
  by (auto simp: at_def goto_def)

theorem follower_context_cancelled_witness:
  "step (RecvDone 1) (waiting (Context (Some Canceled)) False) = None \<and>
   step (RecvTimer 1 testOrder) (waiting (Context (Some Canceled)) False) = None \<and>
   map_option (\<lambda>s. (pc (goroutines s ! 1), backend s, events s))
     (step (RecvCtx 1) (waiting (Context (Some Canceled)) False)) =
   Some (Finished (Returned None (Some Canceled)), 0, [])"
proof -
  have h1: "at (waiting (Context (Some Canceled)) False) 1 (FollowerSelect 0 (5 * Second) False)"
    by (simp add: waiting_def at_def)
  have h2: "\<not> doneClosed (store (waiting (Context (Some Canceled)) False) 0)"
    by (simp add: waiting_def)
  have h3: "Err (ctx (goroutines (waiting (Context (Some Canceled)) False) ! 1)) = Some Canceled"
    by (simp add: waiting_def)
  from follower_context_cancelled [OF h1 h2 h3]
  show ?thesis
    by (auto simp: waiting_def)
qed

section \<open>The lock map under every schedule\<close>




















section \<open>Deduplication\<close>

lemma Enter_effect:
  assumes "step (Enter i) s = Some s'"
  obtains
    (leads) "i < length (goroutines s)" "pc (goroutines s ! i) = Entry"
      "channelLocks (handler s) (channel (goroutines s ! i)) = None"
      "s' = s\<lparr>store := (store s)(nextLock s := \<lparr>result = None, err = None, doneClosed = False\<rparr>),
              nextLock := Suc (nextLock s),
              handler := (handler s)\<lparr>channelLocks :=
                (channelLocks (handler s))(channel (goroutines s ! i) \<mapsto> nextLock s)\<rparr>,
              goroutines := (goroutines s)[i := (goroutines s ! i)\<lparr>pc := LeaderCall (nextLock s)\<rparr>]\<rparr>"
  | (joins) a where "i < length (goroutines s)" "pc (goroutines s ! i) = Entry"
      "channelLocks (handler s) (channel (goroutines s ! i)) = Some a"
      "s' = s\<lparr>store := (store s)(nextLock s := \<lparr>result = None, err = None, doneClosed = False\<rparr>),
              nextLock := Suc (nextLock s),
              goroutines := (goroutines s)[i := (goroutines s ! i)
                \<lparr>pc := FollowerSelect a (lockTimeout (handler s)) False\<rparr>]\<rparr>"
  using assms
  by (cases "channelLocks (handler s) (channel (goroutines s ! i))")
     (auto simp: at_def goto_def getOrCreateLock_def Let_def split: if_splits)

lemma Dispatch_effect:
  assumes "step (Dispatch i es) s = Some s'"
  obtains
    (returns) a r e w' evs' where "i < length (goroutines s)"
      "pc (goroutines s ! i) = LeaderCall a" "rangeOrder (proxies (handler s)) es"
      "handleCacheEmpty (ctx (goroutines s ! i)) \<lparr>Channel = channel (goroutines s ! i)\<rparr> es
         (backend s) (events s) = (Returned r e, w', evs')"
      "s' = s\<lparr>store := (store s)(a := (store s a)\<lparr>result := r, err := e\<rparr>),
              backend := w', events := evs',
              goroutines := (goroutines s)[i := (goroutines s ! i)\<lparr>pc := LeaderReturn a\<rparr>]\<rparr>"
  | (panics) a w' evs' where "i < length (goroutines s)"
      "pc (goroutines s ! i) = LeaderCall a" "rangeOrder (proxies (handler s)) es"
      "handleCacheEmpty (ctx (goroutines s ! i)) \<lparr>Channel = channel (goroutines s ! i)\<rparr> es
         (backend s) (events s) = (Panicked, w', evs')"
      "s' = s\<lparr>backend := w', events := evs',
              goroutines := (goroutines s)[i := (goroutines s ! i)\<lparr>pc := LeaderDelete a Panicked\<rparr>]\<rparr>"
  using assms
  by (auto simp: goto_def split: location.splits if_splits prod.splits outcome.splits)

lemma Return_effect:
  assumes "step (Return i) s = Some s'"
  obtains a where "i < length (goroutines s)" "pc (goroutines s ! i) = LeaderReturn a"
    "s' = s\<lparr>goroutines := (goroutines s)[i := (goroutines s ! i)
              \<lparr>pc := LeaderDelete a (Returned (result (store s a)) (err (store s a)))\<rparr>]\<rparr>"
  using assms
  by (auto simp: goto_def split: location.splits if_splits)

lemma Delete_effect:
  assumes "step (Delete i) s = Some s'"
  obtains a out where "i < length (goroutines s)" "pc (goroutines s ! i) = LeaderDelete a out"
    "s' = s\<lparr>handler := (handler s)\<lparr>channelLocks :=
               (channelLocks (handler s))(channel (goroutines s ! i) := None)\<rparr>,
            goroutines := (goroutines s)[i := (goroutines s ! i)\<lparr>pc := LeaderClose a out\<rparr>]\<rparr>"
  using assms
  by (auto simp: goto_def split: location.splits if_splits)

lemma Close_effect:
  assumes "step (Close i) s = Some s'"
  obtains
    (closes) a out where "i < length (goroutines s)" "pc (goroutines s ! i) = LeaderClose a out"
      "\<not> doneClosed (store s a)"
      "s' = s\<lparr>store := (store s)(a := (store s a)\<lparr>doneClosed := True\<rparr>),
              goroutines := (goroutines s)[i := (goroutines s ! i)\<lparr>pc := Finished out\<rparr>]\<rparr>"
  | (closed) a out where "i < length (goroutines s)" "pc (goroutines s ! i) = LeaderClose a out"
      "doneClosed (store s a)"
      "s' = s\<lparr>goroutines := (goroutines s)[i := (goroutines s ! i)\<lparr>pc := Finished Panicked\<rparr>]\<rparr>"
  using assms
  by (auto simp: goto_def split: location.splits if_splits)

lemma RecvDone_effect:
  assumes "step (RecvDone i) s = Some s'"
  obtains a d fired where "i < length (goroutines s)"
    "pc (goroutines s ! i) = FollowerSelect a d fired" "doneClosed (store s a)"
    "s' = s\<lparr>goroutines := (goroutines s)[i := (goroutines s ! i)
              \<lparr>pc := Finished (Returned (result (store s a)) (err (store s a)))\<rparr>]\<rparr>"
  using assms
  by (auto simp: goto_def split: location.splits if_splits)

lemma TimerFires_effect:
  assumes "step (TimerFires i) s = Some s'"
  obtains a d where "i < length (goroutines s)"
    "pc (goroutines s ! i) = FollowerSelect a d False"
    "s' = s\<lparr>goroutines := (goroutines s)[i := (goroutines s ! i)
              \<lparr>pc := FollowerSelect a d True\<rparr>]\<rparr>"
  using assms
  by (auto simp: goto_def split: location.splits if_splits)

lemma CtxEnds_effect:
  assumes "step (CtxEnds i e) s = Some s'"
  obtains "i < length (goroutines s)"
    "s' = s\<lparr>goroutines := (goroutines s)[i := (goroutines s ! i)\<lparr>ctx := Context (Some e)\<rparr>]\<rparr>"
  using assms
  by (auto split: if_splits)




















section \<open>Other goroutines do not disturb a leader\<close>

lemma RecvTimer_effect:
  assumes "step (RecvTimer i es) s = Some s'"
  obtains a d out w' evs' where "i < length (goroutines s)"
    "pc (goroutines s ! i) = FollowerSelect a d True"
    "s' = s\<lparr>backend := w', events := evs',
            goroutines := (goroutines s)[i := (goroutines s ! i)\<lparr>pc := Finished out\<rparr>]\<rparr>"
  using assms
  by (auto simp: goto_def split: location.splits if_splits prod.splits)

lemma RecvCtx_effect:
  assumes "step (RecvCtx i) s = Some s'"
  obtains a d fired e where "i < length (goroutines s)"
    "pc (goroutines s ! i) = FollowerSelect a d fired"
    "s' = s\<lparr>goroutines := (goroutines s)[i := (goroutines s ! i)
            \<lparr>pc := Finished (Returned None (Some e))\<rparr>]\<rparr>"
  using assms
  by (auto simp: goto_def split: location.splits if_splits option.splits)

text \<open>
  Between two statements of a leader, an action of another goroutine, or the end of
  the leader's own context, leaves the leader where it is, leaves its lock as it is,
  and leaves its entry in the map as long as the leader has not removed it.
\<close>

lemma leader_undisturbed:
  assumes inv: "lockInv s" and st: "step act s = Some s'"
    and other: "actor act \<noteq> i \<or> (\<exists>e. act = CtxEnds i e)"
    and i: "i < length (goroutines s)"
    and lock: "leaderLock (pc (goroutines s ! i)) = Some a"
  shows "pc (goroutines s' ! i) = pc (goroutines s ! i) \<and>
         channel (goroutines s' ! i) = channel (goroutines s ! i) \<and>
         store s' a = store s a \<and>
         (pendingLock (pc (goroutines s ! i)) = Some a \<longrightarrow>
            channelLocks (handler s') (channel (goroutines s ! i)) = Some a)"
proof -
  have al: "a < nextLock s"
    using inv i lock unfolding lockInv_def allocated_def by blast
  have ex: "j < length (goroutines s) \<longrightarrow> leaderLock (pc (goroutines s ! j)) = Some a \<longrightarrow> j = i"
    for j
    using inv i lock unfolding lockInv_def exclusive_def by blast
  have ins: "j < length (goroutines s) \<longrightarrow> pendingLock (pc (goroutines s ! j)) = Some b \<longrightarrow>
      channelLocks (handler s) (channel (goroutines s ! j)) = Some b" for j b
    using inv unfolding lockInv_def installed_def by blast
  show ?thesis
  proof (cases act)
    case (Enter k)
    from st [unfolded Enter] show ?thesis
      using other Enter i al ins [of i a]
      by (cases rule: Enter_effect) auto
  next
    case (Dispatch k es)
    from st [unfolded Dispatch] show ?thesis
      using other Dispatch i ex [of k] ins [of i a]
      by (cases rule: Dispatch_effect) auto
  next
    case (Return k)
    from st [unfolded Return] show ?thesis
      using other Return i ins [of i a]
      by (cases rule: Return_effect) auto
  next
    case (Delete k)
    from st [unfolded Delete] show ?thesis
    proof (cases rule: Delete_effect)
      case (1 b out)
      have "pendingLock (pc (goroutines s ! i)) = Some a \<longrightarrow>
          channel (goroutines s ! k) \<noteq> channel (goroutines s ! i)"
        using ins [of i a] ins [of k b] ex [of k] 1 i other Delete by auto
      then show ?thesis
        using other Delete i 1 ins [of i a] by auto
    qed
  next
    case (Close k)
    from st [unfolded Close] show ?thesis
      using other Close i ex [of k]
        ins [of i a]
      by (cases rule: Close_effect) auto
  next
    case (RecvDone k)
    from st [unfolded RecvDone] show ?thesis
      using other RecvDone i ins [of i a]
      by (cases rule: RecvDone_effect) auto
  next
    case (RecvTimer k es)
    from st [unfolded RecvTimer] show ?thesis
      using other RecvTimer i ins [of i a]
      by (cases rule: RecvTimer_effect) auto
  next
    case (RecvCtx k)
    from st [unfolded RecvCtx] show ?thesis
      using other RecvCtx i ins [of i a]
      by (cases rule: RecvCtx_effect) auto
  next
    case (TimerFires k)
    from st [unfolded TimerFires] show ?thesis
      using other TimerFires i ins [of i a]
      by (cases rule: TimerFires_effect) auto
  next
    case (CtxEnds k e)
    from st [unfolded CtxEnds] show ?thesis
      using other CtxEnds i ins [of i a]
      by (cases rule: CtxEnds_effect) (auto simp: nth_list_update)
  qed
qed

end
